theory Spec2Isabelle
  imports Main
begin

section \<open>The sliding puzzle of game.py and main.py\<close>

text \<open>
  The class \<open>puzzle\<close> of game.py keeps the board in Tk widgets: button \<open>i\<close> carries tile
  \<open>i\<close> and its place on the board is the row and column of its grid cell
  (\<open>button.grid_info()\<close>). A button is modelled by its index in \<open>self.buttons\<close>, and the
  list \<open>buttons\<close> holds, at index \<open>i\<close>, the (row, column) where button \<open>i\<close> is gridded;
  \<open>button.grid(row = r, column = c)\<close> is the list update at that index. Python's integers
  are \<open>int\<close>. The text of \<open>count_label\<close> is always \<open>"moves: " + str(n)\<close>: the field
  \<open>count_label\<close> holds that \<open>n\<close>. Every call of \<open>mb.showinfo\<close> is appended to
  \<open>solved_msgs\<close>: the entry is the number of moves the message reports.
  Slicing, caching and loading the images (cv2, the files \<open>imgNNN.png\<close>) act on the file
  system only and are not part of the model.
\<close>

datatype error = AssertionError | IndexError | ValueError | ZeroDivisionError

record puzzle =
  N :: int
  buttons :: "(int \<times> int) list"
  vacant :: "int \<times> int"
  monitor_status :: bool
  moves :: int
  count_label :: int
  solved_msgs :: "int list"

subsection \<open>\<open>puzzle.__init__\<close>\<close>

text \<open>
  \<open>range(n)\<close> is \<open>[0..n - 1]\<close> (empty for \<open>n \<le> 0\<close>), \<open>itertools.product\<close> is
  \<open>List.product\<close> (the last index runs fastest) and the slice \<open>[: -1]\<close> is \<open>butlast\<close>.
  The constructor has no check of \<open>n\<close>. The model is the constructor for the sizes
  it builds a board for, \<open>n > 0\<close>; the widgets it grids below the board (the Start
  button at row \<open>n\<close>) are Tk's and are not part of the model, and no property below is
  about a size \<open>n \<le> 0\<close>.
\<close>

definition puzzle_init :: "int \<Rightarrow> puzzle" where
  "puzzle_init n =
     \<lparr>N = n,
      buttons = butlast (List.product [0..n - 1] [0..n - 1]),
      vacant = (n - 1, n - 1),
      monitor_status = False,
      moves = 0,
      count_label = 0,
      solved_msgs = []\<rparr>"

subsection \<open>\<open>main\<close>\<close>

text \<open>
  \<open>sys.argv[1]\<close> is absent (IndexError), is not the text of an integer (\<open>int\<close> raises
  ValueError), or is an integer; the parsing done by \<open>int\<close> itself is Python's.
  The three errors are caught together and replaced by the size 3.
\<close>

datatype argv1 = Absent | NotInt | IntText int

fun read_N :: "argv1 \<Rightarrow> error + int" where
  "read_N Absent = Inl IndexError"
| "read_N NotInt = Inl ValueError"
| "read_N (IntText n) = (if n > 2 then Inr n else Inl AssertionError)"

definition main_N :: "argv1 \<Rightarrow> int" where
  "main_N a =
     (case read_N a of
        Inr n \<Rightarrow> n
      | Inl AssertionError \<Rightarrow> 3
      | Inl IndexError \<Rightarrow> 3
      | Inl ValueError \<Rightarrow> 3
      | Inl ZeroDivisionError \<Rightarrow> 3)"

definition main :: "argv1 \<Rightarrow> puzzle" where
  "main a = puzzle_init (main_N a)"

subsection \<open>\<open>puzzle.move\<close>\<close>

text \<open>
  The test of the source, \<open>set((abs(dr), abs(dc))) == {0, 1}\<close>, as it is written.
\<close>

definition adjacent :: "int \<times> int \<Rightarrow> int \<times> int \<Rightarrow> bool" where
  "adjacent v b = ({\<bar>fst v - fst b\<bar>, \<bar>snd v - snd b\<bar>} = {0, 1})"

text \<open>
  The test that ends a monitored move:
  \<open>all(i == row * N + column for i, button in enumerate(self.buttons))\<close>.
\<close>

definition solved_check :: "puzzle \<Rightarrow> bool" where
  "solved_check s =
     list_all (\<lambda>(i, (r, c)). int i = r * N s + c) (List.enumerate 0 (buttons s))"

text \<open>
  \<open>move b s\<close>: button \<open>b\<close> is clicked (or drawn by \<open>randomise\<close>). The swap comes first,
  in every state; the counter, the label and the test for the solved board follow when
  \<open>monitor_status\<close> is set.
  The argument of the source is a button of \<open>self.buttons\<close>, so \<open>b\<close> is below the
  length of \<open>buttons\<close>; the properties below are stated for such \<open>b\<close>.
\<close>

definition swap_step :: "nat \<Rightarrow> puzzle \<Rightarrow> puzzle" where
  "swap_step b s =
     (if adjacent (vacant s) (buttons s ! b)
      then s\<lparr>buttons := (buttons s)[b := vacant s], vacant := buttons s ! b\<rparr>
      else s)"

definition monitor_step :: "puzzle \<Rightarrow> puzzle" where
  "monitor_step s =
     (if monitor_status s
      then (let s' = s\<lparr>moves := moves s + 1, count_label := moves s + 1\<rparr>
            in if solved_check s'
               then s'\<lparr>monitor_status := False, solved_msgs := solved_msgs s' @ [moves s']\<rparr>
               else s')
      else s)"

definition move :: "nat \<Rightarrow> puzzle \<Rightarrow> puzzle" where
  "move b s = monitor_step (swap_step b s)"

subsection \<open>\<open>puzzle.randomise\<close>\<close>

text \<open>
  \<open>random.choices(population, k = k)\<close> returns \<open>k\<close> draws
  \<open>population[floor(random() * len(population))]\<close>; it raises IndexError on an empty
  population when a draw is made. The random source is the parameter \<open>rnd\<close>: draw \<open>j\<close>
  is the index \<open>rnd j mod len(population)\<close>, so every list of \<open>k\<close> members of the
  population is the result for some \<open>rnd\<close>.
\<close>

definition choices :: "(nat \<Rightarrow> nat) \<Rightarrow> 'a list \<Rightarrow> int \<Rightarrow> error + 'a list" where
  "choices rnd population k =
     (if k \<le> 0 then Inr []
      else if population = [] then Inl IndexError
      else Inr (map (\<lambda>j. population ! (rnd j mod length population)) [0..<nat k]))"

definition randomise :: "(nat \<Rightarrow> nat) \<Rightarrow> puzzle \<Rightarrow> error + puzzle" where
  "randomise rnd s =
     (let s0 = s\<lparr>monitor_status := False\<rparr>
      in case choices rnd [0..<length (buttons s0)] (1000 * N s0) of
           Inl e \<Rightarrow> Inl e
         | Inr cs \<Rightarrow>
             Inr ((fold move cs s0)\<lparr>monitor_status := True, moves := 0, count_label := 0\<rparr>))"

subsection \<open>\<open>puzzle.reset\<close>\<close>

text \<open>
  \<open>i // N\<close> and \<open>i % N\<close> are \<open>div\<close> and \<open>mod\<close> on \<open>int\<close> (both round to the floor);
  with \<open>N = 0\<close> the first button raises ZeroDivisionError before anything is changed.
\<close>

definition reset :: "puzzle \<Rightarrow> error + puzzle" where
  "reset s =
     (if N s = 0 \<and> buttons s \<noteq> [] then Inl ZeroDivisionError
      else Inr (s\<lparr>buttons := map (\<lambda>i. (int i div N s, int i mod N s)) [0..<length (buttons s)],
                  vacant := (N s - 1, N s - 1),
                  monitor_status := False,
                  moves := 0,
                  count_label := 0\<rparr>))"

subsection \<open>The board as the data model describes it\<close>

text \<open>
  The cell \<open>p\<close> of the board shows the tile of the button gridded at \<open>p\<close>, and is vacant
  (\<open>None\<close>) when no button is gridded there: \<open>cells s\<close> is the arrangement, a map from
  positions to tile identifiers.
\<close>

fun find_button :: "(int \<times> int) list \<Rightarrow> int \<times> int \<Rightarrow> nat option" where
  "find_button [] p = None"
| "find_button (q # qs) p = (if q = p then Some 0 else map_option Suc (find_button qs p))"

definition cells :: "puzzle \<Rightarrow> int \<times> int \<Rightarrow> nat option" where
  "cells s p = find_button (buttons s) p"

definition in_grid :: "int \<Rightarrow> int \<times> int \<Rightarrow> bool" where
  "in_grid n p = (0 \<le> fst p \<and> fst p < n \<and> 0 \<le> snd p \<and> snd p < n)"

text \<open>The cells of the \<open>n \<times> n\<close> grid, as a set.\<close>

definition grid_set :: "int \<Rightarrow> (int \<times> int) set" where
  "grid_set n = {0..<n} \<times> {0..<n}"

text \<open>
  The identity arrangement in the words of the data model: tile \<open>k\<close> at
  \<open>(k div N, k mod N)\<close> for \<open>k = 0 .. N\<^sup>2 - 2\<close>, the vacancy at \<open>(N - 1, N - 1)\<close>.
\<close>

definition identity_buttons :: "int \<Rightarrow> (int \<times> int) list" where
  "identity_buttons n = map (\<lambda>k. (int k div n, int k mod n)) [0..<nat (n * n - 1)]"

definition is_identity :: "puzzle \<Rightarrow> bool" where
  "is_identity s = (buttons s = identity_buttons (N s) \<and> vacant s = (N s - 1, N s - 1))"

text \<open>
  The invariant of the board: \<open>N\<^sup>2 - 1\<close> buttons, gridded at pairwise different cells of
  the \<open>N \<times> N\<close> grid, and \<open>vacant\<close> a cell of the grid that holds no button.
\<close>

definition board_inv :: "puzzle \<Rightarrow> bool" where
  "board_inv s =
     (0 < N s \<and> length (buttons s) = nat (N s * N s - 1) \<and> distinct (buttons s) \<and>
      list_all (in_grid (N s)) (buttons s) \<and> in_grid (N s) (vacant s) \<and>
      vacant s \<notin> set (buttons s) \<and> 0 \<le> moves s \<and> list_all (\<lambda>m. 1 \<le> m) (solved_msgs s))"

text \<open>
  The states of a puzzle: built by the constructor with a positive size (\<open>main\<close> passes a
  size of at least 3), then changed by clicks on its buttons (\<open>move\<close>), by the Start button
  (\<open>randomise\<close>, with any random source) and by the Reset button.
\<close>

inductive reachable :: "puzzle \<Rightarrow> bool" where
  reach_init: "0 < n \<Longrightarrow> reachable (puzzle_init n)"
| reach_move: "reachable s \<Longrightarrow> b < length (buttons s) \<Longrightarrow> reachable (move b s)"
| reach_randomise: "reachable s \<Longrightarrow> randomise rnd s = Inr s' \<Longrightarrow> reachable s'"
| reach_reset: "reachable s \<Longrightarrow> reset s = Inr s' \<Longrightarrow> reachable s'"


text \<open>
  The arrangements (positions of the tiles, position of the vacancy) that finitely many
  legal moves produce from the identity arrangement. A legal move slides one tile from a
  cell that differs from the vacancy by one unit in exactly one coordinate into the
  vacancy.
\<close>

definition one_step :: "int \<times> int \<Rightarrow> int \<times> int \<Rightarrow> bool" where
  "one_step p q =
     ((fst p = fst q \<and> (snd p = snd q + 1 \<or> snd q = snd p + 1)) \<or>
      (snd p = snd q \<and> (fst p = fst q + 1 \<or> fst q = fst p + 1)))"


text \<open>
  The Solved state: \<open>solved_state t0 t\<close> holds when \<open>t0\<close> is the state left by a click
  that emitted the solved message, and \<open>t\<close> is \<open>t0\<close> or a state that any number of further
  clicks on buttons have made of it, with no shuffle and no reset in between.
\<close>

inductive solved_state :: "puzzle \<Rightarrow> puzzle \<Rightarrow> bool" where
  solved_fired:
    "b < length (buttons s) \<Longrightarrow> solved_msgs (move b s) \<noteq> solved_msgs s \<Longrightarrow>
     solved_state (move b s) (move b s)"
| solved_click:
    "solved_state t0 t \<Longrightarrow> c < length (buttons t) \<Longrightarrow> solved_state t0 (move c t)"

text \<open>
  The 3 by 3 board one legal move from the identity arrangement, monitored: tile 7 is
  on the last cell and the vacancy is at (2, 1).
\<close>

definition displaced7 :: puzzle where
  "displaced7 =
     \<lparr>N = 3, buttons = [(0, 0), (0, 1), (0, 2), (1, 0), (1, 1), (1, 2), (2, 0), (2, 2)],
      vacant = (2, 1), monitor_status = True, moves = 0, count_label = 0, solved_msgs = []\<rparr>"

section \<open>Properties\<close>

subsection \<open>Adjacency\<close>

lemma adjacent_iff:
  "adjacent v b \<longleftrightarrow>
     (\<bar>fst v - fst b\<bar> = 0 \<and> \<bar>snd v - snd b\<bar> = 1) \<or> (\<bar>fst v - fst b\<bar> = 1 \<and> \<bar>snd v - snd b\<bar> = 0)"
  unfolding adjacent_def by (auto simp: doubleton_eq_iff)

lemma adjacent_one_step: "adjacent v b = one_step b v"
  unfolding adjacent_iff one_step_def by auto

lemma adjacent_neq: "adjacent v b \<Longrightarrow> v \<noteq> b"
  unfolding adjacent_iff by auto

subsection \<open>The constructor builds the identity arrangement\<close>

lemma length_init: "0 < n \<Longrightarrow> length (buttons (puzzle_init n)) = nat (n * n - 1)"
  by (simp add: puzzle_init_def nat_mult_distrib nat_diff_distrib')

lemma init_buttons_identity: 
  assumes "0 < n" shows "buttons (puzzle_init n) = identity_buttons n"
proof (rule nth_equalityI)
  show "length (buttons (puzzle_init n)) = length (identity_buttons n)"
    using assms by (simp add: length_init identity_buttons_def)
next
  fix i assume "i < length (buttons (puzzle_init n))"
  then have i: "i < nat (n * n - 1)" using assms by (simp add: length_init)
  then have i2: "i < nat n * nat n" using assms by (simp add: nat_mult_distrib nat_diff_distrib')
  have d: "i div nat n < nat n" using i2 assms
    by (simp add: less_mult_imp_div_less)
  have m: "i mod nat n < nat n" using assms by simp
  have "buttons (puzzle_init n) ! i = List.product [0..n - 1] [0..n - 1] ! i"
    using i assms by (simp add: puzzle_init_def nth_butlast nat_mult_distrib nat_diff_distrib')
  also have "\<dots> = ([0..n - 1] ! (i div nat n), [0..n - 1] ! (i mod nat n))"
    using i2 by (simp add: product_nth)
  also have "\<dots> = (int (i div nat n), int (i mod nat n))"
  proof -
    have "0 + int (i div nat n) \<le> n - 1" "0 + int (i mod nat n) \<le> n - 1"
      using d m by linarith+
    then show ?thesis by (simp only: nth_upto) simp
  qed
  also have "\<dots> = (int i div n, int i mod n)"
    using assms by (simp add: zdiv_int zmod_int)
  finally show "buttons (puzzle_init n) ! i = identity_buttons n ! i"
    using i by (simp add: identity_buttons_def)
qed

lemma identity_nth:
  "k < nat (n * n - 1) \<Longrightarrow> identity_buttons n ! k = (int k div n, int k mod n)"
  by (simp add: identity_buttons_def)

lemma length_identity: "length (identity_buttons n) = nat (n * n - 1)"
  by (simp add: identity_buttons_def)

lemma identity_in_grid:
  assumes "0 < n" "k < nat (n * n - 1)"
  shows "in_grid n (identity_buttons n ! k)"
proof -
  have "k < nat n * nat n" using assms by (simp add: nat_mult_distrib nat_diff_distrib')
  then have "k div nat n < nat n" by (simp add: less_mult_imp_div_less)
  then have "int (k div nat n) < n" by linarith
  then have "int k div n < n" using assms(1) by (simp add: zdiv_int)
  moreover have "0 \<le> int k div n" using assms(1) by (simp add: pos_imp_zdiv_nonneg_iff)
  ultimately show ?thesis using assms by (simp add: identity_nth in_grid_def)
qed

lemma identity_code:
  assumes "0 < n" "k < nat (n * n - 1)"
  shows "fst (identity_buttons n ! k) * n + snd (identity_buttons n ! k) = int k"
  using assms by (simp add: identity_nth)

lemma grid_code_inj:
  assumes "in_grid n p" "in_grid n q" "fst p * n + snd p = fst q * n + snd q"
  shows "p = q"
proof -
  have n: "0 < n" using assms(1) by (auto simp: in_grid_def)
  have "(fst p * n + snd p) div n = fst p" "(fst p * n + snd p) mod n = snd p"
    using assms(1) n by (auto simp: in_grid_def)
  moreover have "(fst q * n + snd q) div n = fst q" "(fst q * n + snd q) mod n = snd q"
    using assms(2) n by (auto simp: in_grid_def)
  ultimately show ?thesis using assms(3) by (metis prod_eqI)
qed

lemma identity_distinct: assumes "0 < n" shows "distinct (identity_buttons n)"
proof -
  have "inj_on (\<lambda>k. (int k div n, int k mod n)) (set [0..<nat (n * n - 1)])"
  proof (rule inj_onI)
    fix x y assume "(int x div n, int x mod n) = (int y div n, int y mod n)"
    then have "int x div n = int y div n" "int x mod n = int y mod n" by auto
    then have "int x = int y" by (metis div_mult_mod_eq)
    then show "x = y" by simp
  qed
  then show ?thesis by (simp add: identity_buttons_def distinct_map)
qed

lemma identity_vacant_notin: 
  assumes "0 < n" shows "(n - 1, n - 1) \<notin> set (identity_buttons n)"
proof
  assume "(n - 1, n - 1) \<in> set (identity_buttons n)"
  then obtain k where k: "k < nat (n * n - 1)" "identity_buttons n ! k = (n - 1, n - 1)"
    by (auto simp: in_set_conv_nth length_identity)
  from identity_code[OF assms k(1)] k(2) have "int k = (n - 1) * n + (n - 1)" by simp
  then have "int k = n * n - 1" by (simp add: algebra_simps)
  with k(1) show False by linarith
qed

lemma board_inv_init: "0 < n \<Longrightarrow> board_inv (puzzle_init n)"
  using identity_distinct[of n] identity_vacant_notin[of n] identity_in_grid[of n]
    init_buttons_identity[of n]
  by (auto simp: board_inv_def length_identity list_all_length in_grid_def puzzle_init_def)

subsection \<open>The invariant is kept by every operation\<close>

lemma monitor_step_frame [simp]:
  "buttons (monitor_step s) = buttons s" "vacant (monitor_step s) = vacant s"
  "N (monitor_step s) = N s"
  by (simp_all add: monitor_step_def Let_def)

lemma swap_step_frame [simp]:
  "N (swap_step b s) = N s" "moves (swap_step b s) = moves s"
  "monitor_status (swap_step b s) = monitor_status s"
  "solved_msgs (swap_step b s) = solved_msgs s" "count_label (swap_step b s) = count_label s"
  "length (buttons (swap_step b s)) = length (buttons s)"
  by (simp_all add: swap_step_def)

lemma move_frame [simp]:
  "N (move b s) = N s" "length (buttons (move b s)) = length (buttons s)"
  "buttons (move b s) = buttons (swap_step b s)" "vacant (move b s) = vacant (swap_step b s)"
  by (simp_all add: move_def)

lemma move_unmonitored: "\<not> monitor_status s \<Longrightarrow> move b s = swap_step b s"
  by (simp add: move_def monitor_step_def)

lemma board_inv_swap_step:
  assumes "board_inv s" "b < length (buttons s)"
  shows "board_inv (swap_step b s)"
proof (cases "adjacent (vacant s) (buttons s ! b)")
  case False
  then show ?thesis using assms by (simp add: swap_step_def)
next
  case True
  let ?bs = "buttons s"
  have d: "distinct ?bs" and v: "vacant s \<notin> set ?bs" using assms(1) by (auto simp: board_inv_def)
  have s: "set (?bs[b := vacant s]) = insert (vacant s) (set ?bs - {?bs ! b})"
    using d assms(2) by (rule set_update_distinct)
  have "distinct (?bs[b := vacant s])" using d v by (simp add: distinct_list_update)
  moreover have "?bs ! b \<noteq> vacant s" using v assms(2) nth_mem by metis
  then have "?bs ! b \<notin> set (?bs[b := vacant s])" unfolding s by simp
  moreover have "in_grid (N s) (?bs ! b)" using assms by (simp add: board_inv_def list_all_length)
  moreover have "list_all (in_grid (N s)) (?bs[b := vacant s])"
    using assms(1) s by (auto simp: board_inv_def list_all_iff)
  ultimately show ?thesis using True assms(1) by (simp add: swap_step_def board_inv_def)
qed

lemma board_inv_monitor_step: "board_inv s \<Longrightarrow> board_inv (monitor_step s)"
  by (auto simp: board_inv_def monitor_step_def Let_def)

lemma board_inv_move: "board_inv s \<Longrightarrow> b < length (buttons s) \<Longrightarrow> board_inv (move b s)"
  by (simp add: move_def board_inv_monitor_step board_inv_swap_step)

lemma fold_move_frame [simp]:
  "N (fold move cs s) = N s" "length (buttons (fold move cs s)) = length (buttons s)"
  by (induction cs arbitrary: s) simp_all

lemma board_inv_fold_move:
  "board_inv s \<Longrightarrow> \<forall>c\<in>set cs. c < length (buttons s) \<Longrightarrow> board_inv (fold move cs s)"
  by (induction cs arbitrary: s) (simp_all add: board_inv_move)

lemma choices_Inr:
  assumes "choices rnd [0..<m] k = Inr cs"
  shows "length cs = nat k \<and> (\<forall>c\<in>set cs. c < m)"
proof -
  have "rnd j mod m < m" if "0 < m" for j using that by simp
  then show ?thesis using assms
    by (auto simp: choices_def split: if_splits)
qed

lemma randomise_Inr:
  assumes "randomise rnd s = Inr s'"
  obtains cs where "length cs = nat (1000 * N s)" "\<forall>c\<in>set cs. c < length (buttons s)"
    "choices rnd [0..<length (buttons s)] (1000 * N s) = Inr cs"
    "s' = (fold move cs (s\<lparr>monitor_status := False\<rparr>))\<lparr>monitor_status := True, moves := 0, count_label := 0\<rparr>"
proof -
  from assms obtain cs where cs: "choices rnd [0..<length (buttons s)] (1000 * N s) = Inr cs"
    and s': "s' = (fold move cs (s\<lparr>monitor_status := False\<rparr>))\<lparr>monitor_status := True, moves := 0, count_label := 0\<rparr>"
    by (auto simp: randomise_def Let_def split: sum.splits)
  from choices_Inr[OF cs] that cs s' show ?thesis by blast
qed

lemma board_inv_randomise:
  assumes "board_inv s" "randomise rnd s = Inr s'" shows "board_inv s'"
proof -
  from assms(2) obtain cs where cs: "\<forall>c\<in>set cs. c < length (buttons s)"
    and s': "s' = (fold move cs (s\<lparr>monitor_status := False\<rparr>))\<lparr>monitor_status := True, moves := 0, count_label := 0\<rparr>"
    by (rule randomise_Inr)
  have "board_inv (s\<lparr>monitor_status := False\<rparr>)" using assms(1) by (simp add: board_inv_def)
  then have "board_inv (fold move cs (s\<lparr>monitor_status := False\<rparr>))"
    using cs by (intro board_inv_fold_move) simp_all
  then show ?thesis unfolding s' by (simp add: board_inv_def)
qed

lemma reset_identity:
  assumes "0 < N s" "length (buttons s) = nat (N s * N s - 1)"
  shows "reset s = Inr (s\<lparr>buttons := identity_buttons (N s), vacant := (N s - 1, N s - 1),
           monitor_status := False, moves := 0, count_label := 0\<rparr>)"
  using assms by (simp add: reset_def identity_buttons_def)

lemma board_inv_reset:
  assumes "board_inv s" "reset s = Inr s'" shows "board_inv s'"
proof -
  have n: "0 < N s" and l: "length (buttons s) = nat (N s * N s - 1)"
    using assms(1) by (auto simp: board_inv_def)
  have "list_all (in_grid (N s)) (identity_buttons (N s))"
    using identity_in_grid[OF n] by (simp add: list_all_length length_identity)
  then show ?thesis
    using assms reset_identity[OF n l] identity_distinct[OF n] identity_vacant_notin[OF n] n
    by (auto simp: board_inv_def length_identity in_grid_def)
qed

lemma reachable_board_inv: "reachable s \<Longrightarrow> board_inv s"
proof (induction rule: reachable.induct)
  case (reach_init n) then show ?case by (rule board_inv_init)
next
  case (reach_move s b) then show ?case by (simp add: board_inv_move)
next
  case (reach_randomise s rnd s') then show ?case by (blast intro: board_inv_randomise)
next
  case (reach_reset s s') then show ?case by (blast intro: board_inv_reset)
qed

lemma reachable_main: "reachable (main a)"
proof -
  have "0 < main_N a" by (cases a) (simp_all add: main_N_def)
  then show ?thesis unfolding main_def by (rule reach_init)
qed

subsection \<open>The arrangement shown by the buttons\<close>

lemma find_button_None: "(find_button bs p = None) = (p \<notin> set bs)"
proof (induction bs)
  case Nil
  show ?case by simp
next
  case (Cons q qs)
  show ?case
  proof (cases "q = p")
    case True then show ?thesis by simp
  next
    case False then show ?thesis using Cons.IH by simp
  qed
qed

lemma find_button_Some:
  "distinct bs \<Longrightarrow> (find_button bs p = Some k) = (k < length bs \<and> bs ! k = p)"
proof (induction bs arbitrary: k)
  case Nil
  show ?case by simp
next
  case (Cons q qs)
  have d: "distinct qs" and q: "q \<notin> set qs" using Cons.prems by simp_all
  show ?case
  proof (cases "q = p")
    case True
    have "\<not> (k' < length qs \<and> qs ! k' = p)" for k'
      using q True nth_mem by blast
    then show ?thesis using True by (cases k) simp_all
  next
    case False
    show ?thesis
    proof (cases k)
      case 0
      then show ?thesis using False by simp
    next
      case (Suc j)
      then show ?thesis using False Cons.IH[OF d, of j] by simp
    qed
  qed
qed

lemma cells_None: "cells s p = None \<longleftrightarrow> p \<notin> set (buttons s)"
  by (simp add: cells_def find_button_None)

lemma cells_Some:
  "board_inv s \<Longrightarrow> cells s p = Some k \<longleftrightarrow> k < length (buttons s) \<and> buttons s ! k = p"
  by (simp add: cells_def find_button_Some board_inv_def)

lemma map_eqI: "(\<And>q k. (f q = Some k) = (g q = Some k)) \<Longrightarrow> f = g"
proof
  fix q assume h: "\<And>q k. (f q = Some k) = (g q = Some k)"
  show "f q = g q"
  proof (cases "f q")
    case None
    then show ?thesis using h[of q] by (cases "g q") auto
  next
    case (Some k) then show ?thesis using h[of q k] by simp
  qed
qed

lemma in_grid_set: "in_grid n p \<longleftrightarrow> p \<in> grid_set n"
  by (cases p) (auto simp: in_grid_def grid_set_def)

lemma board_full:
  assumes "board_inv s" "in_grid (N s) p" "p \<noteq> vacant s"
  shows "p \<in> set (buttons s)"
proof -
  let ?G = "grid_set (N s)"
  have n: "0 < N s" using assms(1) by (simp add: board_inv_def)
  have fin: "finite ?G" by (simp add: grid_set_def)
  have cG: "card ?G = nat (N s) * nat (N s)" by (simp add: grid_set_def)
  have v: "vacant s \<in> ?G" using assms(1) by (simp add: board_inv_def in_grid_set)
  have sub: "set (buttons s) \<subseteq> ?G - {vacant s}"
    using assms(1) by (auto simp: board_inv_def list_all_iff in_grid_set)
  have "card (set (buttons s)) = nat (N s * N s - 1)"
    using assms(1) by (simp add: board_inv_def distinct_card)
  also have "\<dots> = card (?G - {vacant s})"
    using v fin n by (simp add: cG nat_mult_distrib nat_diff_distrib')
  finally have "set (buttons s) = ?G - {vacant s}"
    using sub fin by (intro card_subset_eq) auto
  then show ?thesis using assms(2,3) by (simp add: in_grid_set)
qed

subsection \<open>Concrete boards\<close>

lemma init3: "puzzle_init 3 = \<lparr>N = 3, buttons = [(0, 0), (0, 1), (0, 2), (1, 0), (1, 1), (1, 2), (2, 0), (2, 1)],
    vacant = (2, 2), monitor_status = False, moves = 0, count_label = 0, solved_msgs = []\<rparr>"
  by (simp add: puzzle_init_def upto.simps)

subsection \<open>Moves\<close>

lemma cells_swap:
  assumes inv: "board_inv s" and b: "b < length (buttons s)"
    and adj: "adjacent (vacant s) (buttons s ! b)"
  shows "cells (move b s) = (cells s)(buttons s ! b := None, vacant s \<mapsto> b)"
proof (rule map_eqI)
  fix q k
  let ?bs = "buttons s" and ?v = "vacant s"
  have d: "distinct ?bs" and v: "?v \<notin> set ?bs" using inv by (simp_all add: board_inv_def)
  have inv': "board_inv (move b s)" using inv b by (rule board_inv_move)
  have bs': "buttons (move b s) = ?bs[b := ?v]" using adj by (simp add: swap_step_def)
  have L: "(cells (move b s) q = Some k) = (k < length ?bs \<and> ?bs[b := ?v] ! k = q)"
    using cells_Some[OF inv', of q k] bs' by simp
  have R: "(cells s q = Some k) = (k < length ?bs \<and> ?bs ! k = q)"
    using cells_Some[OF inv] .
  show "(cells (move b s) q = Some k) = (((cells s)(?bs ! b := None, ?v \<mapsto> b)) q = Some k)"
  proof (cases "k = b")
    case True
    have "?bs ! b \<noteq> ?v" using v b nth_mem by metis
    then show ?thesis using True b L R by auto
  next
    case False
    have "?bs ! k \<noteq> ?bs ! b" if "k < length ?bs"
      using that False d b by (simp add: nth_eq_iff_index_eq)
    moreover have "?bs ! k \<noteq> ?v" if "k < length ?bs" using that v nth_mem by metis
    ultimately show ?thesis using False L R by auto
  qed
qed

text \<open>
  C1. \<open>move\<close> on a button of a well-formed board changes the arrangement exactly when
  the button's cell \<open>p\<close> is one step from the vacancy (one coordinate equal, the other
  differing by 1), which is the test of the source. When it is, tile \<open>b\<close> is shown at the
  former vacancy, \<open>p\<close> is empty, every other cell is as before, and \<open>vacant\<close> is \<open>p\<close>.
  When it is not, every cell, every button and \<open>vacant\<close> are as before. \<open>move\<close> has no
  error result.
\<close>

theorem move_legality:
  assumes "board_inv s" and "b < length (buttons s)"
  shows "(cells (move b s) \<noteq> cells s) = one_step (buttons s ! b) (vacant s) \<and>
         one_step (buttons s ! b) (vacant s) = adjacent (vacant s) (buttons s ! b) \<and>
         (one_step (buttons s ! b) (vacant s) \<longrightarrow>
            cells (move b s) = (cells s)(buttons s ! b := None, vacant s \<mapsto> b) \<and>
            vacant (move b s) = buttons s ! b) \<and>
         (\<not> one_step (buttons s ! b) (vacant s) \<longrightarrow>
            cells (move b s) = cells s \<and> buttons (move b s) = buttons s \<and>
            vacant (move b s) = vacant s)"
proof (cases "adjacent (vacant s) (buttons s ! b)")
  case True
  have c: "cells (move b s) = (cells s)(buttons s ! b := None, vacant s \<mapsto> b)"
    using assms True by (rule cells_swap)
  have "cells s (vacant s) = None" using assms(1) by (simp add: cells_None board_inv_def)
  moreover have "cells (move b s) (vacant s) = Some b" unfolding c by simp
  ultimately have "cells (move b s) \<noteq> cells s" by (metis option.distinct(1))
  moreover have "vacant (move b s) = buttons s ! b" using True by (simp add: swap_step_def)
  ultimately show ?thesis using True c by (simp add: adjacent_one_step)
next
  case False
  then have "buttons (move b s) = buttons s" "vacant (move b s) = vacant s"
    by (simp_all add: swap_step_def)
  moreover from this have "cells (move b s) = cells s" by (simp add: cells_def fun_eq_iff)
  ultimately show ?thesis using False by (simp add: adjacent_one_step)
qed

text \<open>
  On the 3 by 3 board as constructed: button 7, at (2, 1), slides into the vacancy at
  (2, 2); button 0, at (0, 0), does not move.
\<close>

theorem move_legality_witness:
  "board_inv (puzzle_init 3) \<and> buttons (puzzle_init 3) ! 7 = (2, 1) \<and>
   vacant (puzzle_init 3) = (2, 2) \<and> one_step (2, 1) (2, 2) \<and>
   cells (move 7 (puzzle_init 3)) \<noteq> cells (puzzle_init 3) \<and>
   cells (move 7 (puzzle_init 3)) (2, 2) = Some 7 \<and>
   cells (move 7 (puzzle_init 3)) (2, 1) = None \<and>
   vacant (move 7 (puzzle_init 3)) = (2, 1) \<and>
   buttons (puzzle_init 3) ! 0 = (0, 0) \<and> \<not> one_step (0, 0) (2, 2) \<and>
   cells (move 0 (puzzle_init 3)) = cells (puzzle_init 3) \<and>
   vacant (move 0 (puzzle_init 3)) = (2, 2)"
proof -
  have inv: "board_inv (puzzle_init 3)" by (rule board_inv_init) simp
  have l7: "7 < length (buttons (puzzle_init 3))" and l0: "0 < length (buttons (puzzle_init 3))"
    by (simp_all add: init3)
  have p7: "buttons (puzzle_init 3) ! 7 = (2, 1)" and p0: "buttons (puzzle_init 3) ! 0 = (0, 0)"
    and v: "vacant (puzzle_init 3) = (2, 2)"
    by (simp_all add: init3)
  have o7: "one_step (2, 1) (2, 2)" and o0: "\<not> one_step (0, 0) (2, 2)"
    by (simp_all add: one_step_def)
  note T7 = move_legality[OF inv l7, unfolded p7 v]
  note T0 = move_legality[OF inv l0, unfolded p0 v]
  have a: "cells (move 7 (puzzle_init 3)) \<noteq> cells (puzzle_init 3)"
    using T7 o7 by blast
  have b: "cells (move 7 (puzzle_init 3)) = (cells (puzzle_init 3))((2, 1) := None, (2, 2) \<mapsto> 7)"
    using T7 o7 by blast
  have c: "vacant (move 7 (puzzle_init 3)) = (2, 1)"
    using T7 o7 by blast
  have d: "cells (move 0 (puzzle_init 3)) = cells (puzzle_init 3)"
    using T0 o0 by blast
  have e: "vacant (move 0 (puzzle_init 3)) = (2, 2)"
    using T0 o0 by blast
  have f: "cells (move 7 (puzzle_init 3)) (2, 2) = Some 7"
    unfolding b by simp
  have g: "cells (move 7 (puzzle_init 3)) (2, 1) = None"
    unfolding b by simp
  show ?thesis
    by (intro conjI) (fact inv p7 v o7 a f g c p0 o0 d e)+
qed

subsection \<open>The invariant of the data model\<close>

text \<open>
  C4. In every state reached from the constructor by moves, shuffles and resets:
  \<open>vacant\<close> is a cell of the grid, a cell of the grid is empty exactly when it is
  \<open>vacant\<close> (so exactly one cell is vacant, and it is the cached one), every shown tile
  is one of \<open>0 .. N\<^sup>2 - 2\<close> in a cell of the grid, and each of these tiles is shown in
  exactly one cell.
\<close>

theorem board_invariant:
  assumes "reachable s"
  shows "in_grid (N s) (vacant s) \<and>
         (\<forall>p. in_grid (N s) p \<longrightarrow> (cells s p = None) = (p = vacant s)) \<and>
         (\<forall>p k. cells s p = Some k \<longrightarrow> in_grid (N s) p \<and> int k \<le> N s * N s - 2) \<and>
         (\<forall>k. int k \<le> N s * N s - 2 \<longrightarrow> (\<exists>!p. cells s p = Some k))"
proof -
  have inv: "board_inv s" using assms by (rule reachable_board_inv)
  have n: "0 < N s" and len: "length (buttons s) = nat (N s * N s - 1)"
    and g: "list_all (in_grid (N s)) (buttons s)" and v: "in_grid (N s) (vacant s)"
    and vn: "vacant s \<notin> set (buttons s)"
    using inv by (simp_all add: board_inv_def)
  have lk: "(k < length (buttons s)) = (int k \<le> N s * N s - 2)" for k
  proof -
    have "0 < N s * N s" using n by simp
    then show ?thesis unfolding len by linarith
  qed
  have A: "(cells s p = None) = (p = vacant s)" if "in_grid (N s) p" for p
    using board_full[OF inv that] vn by (auto simp: cells_None)
  have B: "in_grid (N s) p \<and> int k \<le> N s * N s - 2" if "cells s p = Some k" for p k
  proof -
    from that have k: "k < length (buttons s)" "buttons s ! k = p"
      using cells_Some[OF inv] by simp_all
    then show ?thesis using g lk by (auto simp: list_all_length)
  qed
  have C: "\<exists>!p. cells s p = Some k" if "int k \<le> N s * N s - 2" for k
  proof -
    have "k < length (buttons s)" using that lk by simp
    then show ?thesis using cells_Some[OF inv] by auto
  qed
  show ?thesis using v A B C by blast
qed

text \<open>After button 7 of the 3 by 3 board has moved, the vacancy is the cell (2, 1).\<close>

theorem board_invariant_witness:
  "reachable (move 7 (puzzle_init 3)) \<and> N (move 7 (puzzle_init 3)) = 3 \<and>
   vacant (move 7 (puzzle_init 3)) = (2, 1) \<and> in_grid 3 (2, 1) \<and> in_grid 3 (2, 2) \<and>
   cells (move 7 (puzzle_init 3)) (2, 1) = None \<and>
   cells (move 7 (puzzle_init 3)) (2, 2) \<noteq> None"
proof -
  have r: "reachable (move 7 (puzzle_init 3))"
    by (rule reach_move, rule reach_init) (simp_all add: init3)
  have v: "vacant (move 7 (puzzle_init 3)) = (2, 1)" and n: "N (move 7 (puzzle_init 3)) = 3"
    by (simp_all add: init3 swap_step_def adjacent_iff)
  have g: "in_grid 3 (2, 2)" and g': "in_grid 3 (2, 1)" by (simp_all add: in_grid_def)
  note T = board_invariant[OF r, unfolded v n]
  have a: "cells (move 7 (puzzle_init 3)) (2, 1) = None" using T g' by blast
  have "(2, 2) \<noteq> ((2, 1) :: int \<times> int)" by simp
  then have b: "cells (move 7 (puzzle_init 3)) (2, 2) \<noteq> None" using T g by blast
  show ?thesis
    by (intro conjI) (fact r n v g g' a b)+
qed

subsection \<open>The test for the solved board\<close>

lemma solved_check_nth:
  "solved_check s =
     (\<forall>i<length (buttons s). int i = fst (buttons s ! i) * N s + snd (buttons s ! i))"
  by (simp add: solved_check_def list_all_length nth_enumerate_eq case_prod_beta)

lemma solved_check_frame [simp]:
  "solved_check (s\<lparr>moves := m\<rparr>) = solved_check s"
  "solved_check (s\<lparr>count_label := m\<rparr>) = solved_check s"
  "solved_check (s\<lparr>monitor_status := f\<rparr>) = solved_check s"
  "solved_check (s\<lparr>solved_msgs := ms\<rparr>) = solved_check s"
  by (simp_all add: solved_check_def)

lemma solved_check_identity:
  assumes inv: "board_inv s"
  shows "solved_check s = is_identity s"
proof
  have n: "0 < N s" and len: "length (buttons s) = nat (N s * N s - 1)"
    and g: "list_all (in_grid (N s)) (buttons s)" and v: "in_grid (N s) (vacant s)"
    and vn: "vacant s \<notin> set (buttons s)"
    using inv by (simp_all add: board_inv_def)
  {
    assume sc: "solved_check s"
    have "buttons s = identity_buttons (N s)"
    proof (rule nth_equalityI)
      show "length (buttons s) = length (identity_buttons (N s))"
        by (simp add: len length_identity)
    next
      fix i assume i: "i < length (buttons s)"
      then have i': "i < nat (N s * N s - 1)" by (simp add: len)
      have "fst (buttons s ! i) * N s + snd (buttons s ! i) = int i"
        using sc i by (simp add: solved_check_nth)
      moreover have "in_grid (N s) (buttons s ! i)" using g i by (simp add: list_all_length)
      ultimately show "buttons s ! i = identity_buttons (N s) ! i"
        using identity_code[OF n i'] identity_in_grid[OF n i']
        by (intro grid_code_inj[of "N s"]) simp_all
    qed
    moreover have "vacant s = (N s - 1, N s - 1)"
    proof (rule ccontr)
      assume "vacant s \<noteq> (N s - 1, N s - 1)"
      moreover have "in_grid (N s) (N s - 1, N s - 1)" using n by (simp add: in_grid_def)
      ultimately have "(N s - 1, N s - 1) \<in> set (buttons s)"
        using board_full[OF inv] by metis
      then show False
        using \<open>buttons s = identity_buttons (N s)\<close> identity_vacant_notin[OF n] by simp
    qed
    ultimately show "is_identity s" by (simp add: is_identity_def)
  }
  {
    assume "is_identity s"
    then have b: "buttons s = identity_buttons (N s)" by (simp add: is_identity_def)
    show "solved_check s"
      unfolding solved_check_nth
    proof (intro allI impI)
      fix i assume "i < length (buttons s)"
      then have "i < nat (N s * N s - 1)" by (simp add: len)
      from identity_code[OF n this] show "int i = fst (buttons s ! i) * N s + snd (buttons s ! i)"
        by (simp add: b)
    qed
  }
qed

lemma move_solved:
  assumes "monitor_status s" "solved_check (swap_step b s)"
  shows "move b s = (swap_step b s)\<lparr>moves := moves s + 1, count_label := moves s + 1,
           monitor_status := False, solved_msgs := solved_msgs s @ [moves s + 1]\<rparr>"
  using assms by (simp add: move_def monitor_step_def Let_def)

lemma move_unsolved:
  assumes "monitor_status s" "\<not> solved_check (swap_step b s)"
  shows "move b s = (swap_step b s)\<lparr>moves := moves s + 1, count_label := moves s + 1\<rparr>"
  using assms by (simp add: move_def monitor_step_def Let_def)

lemma is_identity_frame:
  "buttons t = buttons s \<Longrightarrow> vacant t = vacant s \<Longrightarrow> N t = N s \<Longrightarrow> is_identity t = is_identity s"
  by (simp add: is_identity_def)

lemma swap_from_identity:
  assumes inv: "board_inv t" and id: "is_identity t" and c: "c < length (buttons t)"
    and adj: "one_step (buttons t ! c) (vacant t)"
  shows "\<not> solved_check (swap_step c t) \<and> \<not> is_identity (swap_step c t)"
proof -
  have a: "adjacent (vacant t) (buttons t ! c)" using adj by (simp add: adjacent_one_step)
  have inv': "board_inv (swap_step c t)" using inv c by (rule board_inv_swap_step)
  have "vacant (swap_step c t) = buttons t ! c" using a by (simp add: swap_step_def)
  moreover have "buttons t ! c \<noteq> vacant t" using a adjacent_neq by metis
  ultimately have "\<not> is_identity (swap_step c t)" using id by (simp add: is_identity_def)
  then show ?thesis using solved_check_identity[OF inv'] by simp
qed

text \<open>
  C3. A monitored \<open>move\<close> on any reachable state evaluates the test of the source on
  the board after the swap, and the test holds exactly when the arrangement is the
  identity arrangement. When it holds, \<open>monitor_status\<close> is cleared and a message
  reporting the final value of \<open>moves\<close> is emitted; when it does not, monitoring goes on
  and no message is emitted. One legal swap away from the identity arrangement the test
  is false.
\<close>

theorem solved_detection:
  assumes "reachable s" and "b < length (buttons s)" and "monitor_status s"
  shows "solved_check (swap_step b s) = is_identity (move b s) \<and>
         (is_identity (move b s) \<longrightarrow>
            \<not> monitor_status (move b s) \<and>
            solved_msgs (move b s) = solved_msgs s @ [moves (move b s)]) \<and>
         (\<not> is_identity (move b s) \<longrightarrow>
            monitor_status (move b s) \<and> solved_msgs (move b s) = solved_msgs s) \<and>
         (\<forall>t c. board_inv t \<and> is_identity t \<and> c < length (buttons t) \<and>
                one_step (buttons t ! c) (vacant t) \<longrightarrow>
                \<not> solved_check (swap_step c t) \<and> \<not> is_identity (swap_step c t))"
proof -
  have inv: "board_inv (swap_step b s)"
    using assms(1,2) by (simp add: reachable_board_inv board_inv_swap_step)
  have id: "is_identity (move b s) = is_identity (swap_step b s)"
    by (rule is_identity_frame) simp_all
  have sc: "solved_check (swap_step b s) = is_identity (move b s)"
    using solved_check_identity[OF inv] id by simp
  have yes: "\<not> monitor_status (move b s) \<and> solved_msgs (move b s) = solved_msgs s @ [moves (move b s)]"
    if "is_identity (move b s)"
    using that sc move_solved[OF assms(3), of b] by simp
  have no: "monitor_status (move b s) \<and> solved_msgs (move b s) = solved_msgs s"
    if "\<not> is_identity (move b s)"
    using that sc move_unsolved[OF assms(3), of b] assms(3) by simp
  show ?thesis using sc yes no swap_from_identity by blast
qed

lemma displaced7_move7:
  "move 7 displaced7 =
     \<lparr>N = 3, buttons = [(0, 0), (0, 1), (0, 2), (1, 0), (1, 1), (1, 2), (2, 0), (2, 1)],
      vacant = (2, 2), monitor_status = False, moves = 1, count_label = 1, solved_msgs = [1]\<rparr>"
  by (simp add: displaced7_def move_def swap_step_def monitor_step_def adjacent_iff
      solved_check_def enumerate_eq_zip upt_conv_Cons)

lemma displaced7_move0:
  "move 0 displaced7 =
     \<lparr>N = 3, buttons = [(0, 0), (0, 1), (0, 2), (1, 0), (1, 1), (1, 2), (2, 0), (2, 2)],
      vacant = (2, 1), monitor_status = True, moves = 1, count_label = 1, solved_msgs = []\<rparr>"
  by (simp add: displaced7_def move_def swap_step_def monitor_step_def adjacent_iff
      solved_check_def enumerate_eq_zip upt_conv_Cons)

lemma identity3: "identity_buttons 3 = [(0, 0), (0, 1), (0, 2), (1, 0), (1, 1), (1, 2), (2, 0), (2, 1)]"
  using init_buttons_identity[of 3] by (simp add: init3)

subsection \<open>Two shuffles of the 3 by 3 board, evaluated\<close>

text \<open>
  The random source that always draws button 0 leaves the board in the identity
  arrangement; the one that draws button 7 first and button 0 afterwards leaves tile 7
  displaced.
\<close>

lemma fold_move_noop:
  "\<not> monitor_status t \<Longrightarrow> \<not> adjacent (vacant t) (buttons t ! c) \<Longrightarrow>
   fold move (replicate k c) t = t"
proof (induction k)
  case 0
  show ?case by simp
next
  case (Suc k)
  have "move c t = t" using Suc.prems by (simp add: move_unmonitored swap_step_def)
  then show ?case using Suc by simp
qed

lemma choices_upt:
  assumes "0 < m"
  shows "choices rnd [0..<m] k = Inr (map (\<lambda>j. rnd j mod m) [0..<nat k])"
proof -
  have "[0..<m] ! (rnd j mod m) = rnd j mod m" for j using assms by simp
  then show ?thesis using assms by (simp add: choices_def)
qed

lemma randomise_draws:
  assumes "buttons s \<noteq> []"
  shows "randomise rnd s =
     Inr ((fold move (map (\<lambda>j. rnd j mod length (buttons s)) [0..<nat (1000 * N s)])
             (s\<lparr>monitor_status := False\<rparr>))
          \<lparr>monitor_status := True, moves := 0, count_label := 0\<rparr>)"
  using assms by (simp add: randomise_def choices_upt)

lemma draws_7_then_0:
  "map (\<lambda>j. (if j = 0 then 7 else (0::nat)) mod 8) [0..<Suc k] = 7 # replicate k 0"
proof -
  have u: "[0..<Suc k] = 0 # [Suc 0..<Suc k]" by (rule upt_conv_Cons) simp
  have "map (\<lambda>j. (if j = 0 then 7 else (0::nat)) mod 8) [Suc 0..<Suc k]
        = map (\<lambda>j. 0) [Suc 0..<Suc k]"
    by (rule map_cong) auto
  also have "\<dots> = replicate k 0" by (simp add: map_replicate_const del: upt_Suc)
  finally show ?thesis unfolding u by simp
qed

lemma shuffle_to_identity:
  "randomise (\<lambda>j. 0) (puzzle_init 3) = Inr ((puzzle_init 3)\<lparr>monitor_status := True\<rparr>)"
proof -
  let ?s0 = "(puzzle_init 3)\<lparr>monitor_status := False\<rparr>"
  have r: "randomise (\<lambda>j. 0) (puzzle_init 3) =
      Inr ((fold move (map (\<lambda>j. 0 mod length (buttons (puzzle_init 3)))
                         [0..<nat (1000 * N (puzzle_init 3))]) ?s0)
           \<lparr>monitor_status := True, moves := 0, count_label := 0\<rparr>)"
    by (rule randomise_draws) (simp_all add: init3)
  have d: "map (\<lambda>j. 0 mod length (buttons (puzzle_init 3))) [0..<nat (1000 * N (puzzle_init 3))]
           = replicate 3000 0"
    by (simp add: init3 map_replicate_const)
  have f: "fold move (replicate 3000 0) ?s0 = ?s0"
    by (rule fold_move_noop) (simp_all add: init3 adjacent_iff)
  show ?thesis unfolding r d f by (simp add: init3)
qed

lemma shuffle_to_displaced7:
  "randomise (\<lambda>j. if j = 0 then 7 else 0) (puzzle_init 3) = Inr displaced7"
proof -
  let ?s0 = "(puzzle_init 3)\<lparr>monitor_status := False\<rparr>"
  let ?d = "displaced7\<lparr>monitor_status := False\<rparr>"
  have r: "randomise (\<lambda>j. if j = 0 then 7 else 0) (puzzle_init 3) =
      Inr ((fold move (map (\<lambda>j. (if j = 0 then 7 else 0) mod length (buttons (puzzle_init 3)))
                         [0..<nat (1000 * N (puzzle_init 3))]) ?s0)
           \<lparr>monitor_status := True, moves := 0, count_label := 0\<rparr>)"
    by (rule randomise_draws) (simp_all add: init3)
  have l: "length (buttons (puzzle_init 3)) = 8" and k: "nat (1000 * N (puzzle_init 3)) = Suc 2999"
    by (simp_all add: init3)
  have m: "move 7 ?s0 = ?d"
    by (simp add: init3 displaced7_def move_def swap_step_def monitor_step_def adjacent_iff)
  have n: "fold move (replicate 2999 0) ?d = ?d"
    by (rule fold_move_noop) (simp_all add: displaced7_def adjacent_iff)
  have f: "fold move (7 # replicate 2999 0) ?s0 = ?d"
    unfolding fold_Cons comp_apply m n ..
  show ?thesis unfolding r l k draws_7_then_0 f by (simp add: displaced7_def)
qed

lemma reachable_displaced7: "reachable displaced7"
proof -
  have "reachable (puzzle_init 3)" by (rule reach_init) simp
  then show ?thesis using shuffle_to_displaced7 by (rule reach_randomise)
qed

subsection \<open>Monitored moves\<close>

text \<open>
  On the board with tile 7 displaced: the move of button 7 restores the identity
  arrangement and reports 1 move; the click on button 0 does neither.
\<close>

theorem solved_detection_witness:
  "reachable displaced7 \<and> monitor_status displaced7 \<and>
   is_identity (move 7 displaced7) \<and> \<not> monitor_status (move 7 displaced7) \<and>
   solved_msgs (move 7 displaced7) = [1] \<and> moves (move 7 displaced7) = 1 \<and>
   \<not> is_identity (move 0 displaced7) \<and> monitor_status (move 0 displaced7) \<and>
   solved_msgs (move 0 displaced7) = []"
proof -
  have r: "reachable displaced7" by (rule reachable_displaced7)
  have m: "monitor_status displaced7" and ms: "solved_msgs displaced7 = []"
    by (simp_all add: displaced7_def)
  have l7: "7 < length (buttons displaced7)" and l0: "0 < length (buttons displaced7)"
    by (simp_all add: displaced7_def)
  note T7 = solved_detection[OF r l7 m]
  note T0 = solved_detection[OF r l0 m]
  have "solved_check (swap_step 7 displaced7)"
    by (simp add: displaced7_def swap_step_def adjacent_iff solved_check_def enumerate_eq_zip upt_conv_Cons)
  then have a: "is_identity (move 7 displaced7)" using T7 by blast
  have b: "\<not> monitor_status (move 7 displaced7)" using T7 a by blast
  have c: "moves (move 7 displaced7) = 1" by (simp add: displaced7_move7)
  have "solved_msgs (move 7 displaced7) = solved_msgs displaced7 @ [moves (move 7 displaced7)]"
    using T7 a by blast
  then have d: "solved_msgs (move 7 displaced7) = [1]" unfolding c ms by simp
  have "\<not> solved_check (swap_step 0 displaced7)"
    by (simp add: displaced7_def swap_step_def adjacent_iff solved_check_def enumerate_eq_zip upt_conv_Cons)
  then have e: "\<not> is_identity (move 0 displaced7)" using T0 by blast
  have f: "monitor_status (move 0 displaced7)" using T0 e by blast
  have "solved_msgs (move 0 displaced7) = solved_msgs displaced7" using T0 e by blast
  then have g: "solved_msgs (move 0 displaced7) = []" unfolding ms .
  show ?thesis by (intro conjI) (fact r m a b d c e f g)+
qed

text \<open>
  C6, as the specification states it, fails: with monitoring on, a click on button 0 of
  the board with tile 7 displaced moves nothing (the cell (0, 0) is not one step from the
  vacancy at (2, 1)) and the counter goes from 0 to 1.
\<close>

theorem move_counter_counterexample:
  "monitor_status displaced7 \<and> buttons displaced7 ! 0 = (0, 0) \<and> vacant displaced7 = (2, 1) \<and>
   \<not> adjacent (2, 1) (0, 0) \<and> \<not> one_step (0, 0) (2, 1) \<and>
   buttons (move 0 displaced7) = buttons displaced7 \<and>
   vacant (move 0 displaced7) = vacant displaced7 \<and>
   moves displaced7 = 0 \<and> moves (move 0 displaced7) = 1"
  by (simp add: displaced7_move0) (simp add: displaced7_def adjacent_iff one_step_def)

text \<open>
  C6, amended. While \<open>monitor_status\<close> is set, every call of \<open>move\<close> adds exactly 1 to
  \<open>moves\<close>, whether or not the button moved; while it is not set, \<open>moves\<close> is unchanged.
\<close>

theorem move_counter:
  "moves (move b s) = (if monitor_status s then moves s + 1 else moves s)"
  by (simp add: move_def monitor_step_def Let_def)

text \<open>
  C7, as the specification states it, fails: the move of button 7 solves the board with
  tile 7 displaced (the message is emitted and monitoring stops); a second click on
  button 7 slides it back to (2, 2) and the vacancy returns to (2, 1).
\<close>

theorem solved_state_counterexample:
  "solved_msgs displaced7 = [] \<and> solved_msgs (move 7 displaced7) = [1] \<and>
   is_identity (move 7 displaced7) \<and> \<not> monitor_status (move 7 displaced7) \<and>
   buttons (move 7 displaced7) ! 7 = (2, 1) \<and> vacant (move 7 displaced7) = (2, 2) \<and>
   buttons (move 7 (move 7 displaced7)) ! 7 = (2, 2) \<and>
   vacant (move 7 (move 7 displaced7)) = (2, 1) \<and>
   cells (move 7 (move 7 displaced7)) (2, 1) = None \<and>
   cells (move 7 displaced7) (2, 1) = Some 7"
  by (simp add: displaced7_move7 is_identity_def identity3)
     (simp add: displaced7_def move_def swap_step_def monitor_step_def adjacent_iff cells_def)

lemma fired_unmonitored:
  "solved_msgs (move b s) \<noteq> solved_msgs s \<Longrightarrow> \<not> monitor_status (move b s)"
  by (auto simp: move_def monitor_step_def Let_def split: if_splits)

lemma solved_state_quiet:
  "solved_state t0 t \<Longrightarrow>
   \<not> monitor_status t \<and> moves t = moves t0 \<and> solved_msgs t = solved_msgs t0"
proof (induction rule: solved_state.induct)
  case (solved_fired b s)
  then show ?case by (simp add: fired_unmonitored)
next
  case (solved_click t0 t c)
  then have "move c t = swap_step c t" by (simp add: move_unmonitored)
  then show ?case using solved_click.IH by simp
qed

lemma swap_step_changes:
  assumes "c < length (buttons t)"
  shows "(buttons (swap_step c t) \<noteq> buttons t) = adjacent (vacant t) (buttons t ! c)"
    and "(vacant (swap_step c t) \<noteq> vacant t) = adjacent (vacant t) (buttons t ! c)"
proof -
  have "(buttons t)[c := vacant t] \<noteq> buttons t" if "adjacent (vacant t) (buttons t ! c)"
  proof
    assume "(buttons t)[c := vacant t] = buttons t"
    then have "(buttons t)[c := vacant t] ! c = buttons t ! c" by simp
    then have "vacant t = buttons t ! c" using assms by simp
    then show False using that adjacent_neq by metis
  qed
  then show "(buttons (swap_step c t) \<noteq> buttons t) = adjacent (vacant t) (buttons t ! c)"
    by (simp add: swap_step_def)
  show "(vacant (swap_step c t) \<noteq> vacant t) = adjacent (vacant t) (buttons t ! c)"
    using adjacent_neq[of "vacant t" "buttons t ! c"] by (auto simp: swap_step_def)
qed

text \<open>
  C7, amended. In the Solved state, that is in the state \<open>t0\<close> left by the click that
  emitted the solved message and in every state \<open>t\<close> that further clicks make of it
  before the next shuffle or reset, monitoring is off and \<open>moves\<close> and the messages are
  those of \<open>t0\<close>. Every click on a button in such a state is the plain swap step of any
  other state: the buttons and \<open>vacant\<close> change exactly when the button is adjacent to
  the vacancy, \<open>moves\<close> is unchanged, no message is emitted, monitoring stays off, the
  state after it is again a Solved state, and there is no error result.
\<close>

theorem solved_state_moves:
  assumes "solved_state t0 t"
  shows "\<not> monitor_status t \<and> moves t = moves t0 \<and> solved_msgs t = solved_msgs t0 \<and>
         (\<forall>c<length (buttons t).
            solved_state t0 (move c t) \<and> move c t = swap_step c t \<and>
            (buttons (move c t) \<noteq> buttons t) = adjacent (vacant t) (buttons t ! c) \<and>
            (vacant (move c t) \<noteq> vacant t) = adjacent (vacant t) (buttons t ! c) \<and>
            moves (move c t) = moves t \<and> solved_msgs (move c t) = solved_msgs t \<and>
            \<not> monitor_status (move c t))"
proof -
  have q: "\<not> monitor_status t" "moves t = moves t0" "solved_msgs t = solved_msgs t0"
    using solved_state_quiet[OF assms] by simp_all
  have step: "solved_state t0 (move c t) \<and> move c t = swap_step c t \<and>
            (buttons (move c t) \<noteq> buttons t) = adjacent (vacant t) (buttons t ! c) \<and>
            (vacant (move c t) \<noteq> vacant t) = adjacent (vacant t) (buttons t ! c) \<and>
            moves (move c t) = moves t \<and> solved_msgs (move c t) = solved_msgs t \<and>
            \<not> monitor_status (move c t)"
    if c: "c < length (buttons t)" for c
  proof -
    have s: "solved_state t0 (move c t)" using assms c by (rule solved_click)
    have m: "move c t = swap_step c t" using q(1) by (rule move_unmonitored)
    have "\<not> monitor_status (move c t)" "moves (move c t) = moves t0"
      "solved_msgs (move c t) = solved_msgs t0"
      using solved_state_quiet[OF s] by simp_all
    then show ?thesis using s m q swap_step_changes[OF c] by simp
  qed
  show ?thesis using q step by blast
qed

text \<open>
  The solved 3 by 3 board, clicked on button 7 a second and a third time: the tile
  slides each time, and the counter stays at 1.
\<close>

theorem solved_state_moves_witness:
  "solved_state (move 7 displaced7) (move 7 (move 7 displaced7)) \<and>
   moves (move 7 (move 7 displaced7)) = 1 \<and>
   solved_msgs (move 7 (move 7 displaced7)) = [1] \<and>
   \<not> monitor_status (move 7 (move 7 displaced7)) \<and>
   adjacent (vacant (move 7 (move 7 displaced7))) (buttons (move 7 (move 7 displaced7)) ! 7) \<and>
   buttons (move 7 (move 7 (move 7 displaced7))) \<noteq> buttons (move 7 (move 7 displaced7)) \<and>
   moves (move 7 (move 7 (move 7 displaced7))) = 1 \<and>
   solved_msgs (move 7 (move 7 (move 7 displaced7))) = [1] \<and>
   \<not> monitor_status (move 7 (move 7 (move 7 displaced7)))"
proof -
  let ?first = "move 7 displaced7"
  let ?second = "move 7 ?first"
  have h: "solved_msgs ?first \<noteq> solved_msgs displaced7"
    by (simp add: displaced7_move7) (simp add: displaced7_def)
  have l: "7 < length (buttons displaced7)" by (simp add: displaced7_def)
  have l0: "7 < length (buttons ?first)" and l1: "7 < length (buttons ?second)"
    using l by simp_all
  have s0: "solved_state ?first ?first" using l h by (rule solved_fired)
  have s1: "solved_state ?first ?second" using s0 l0 by (rule solved_click)
  note T = solved_state_moves[OF s1]
  have m0: "moves ?first = 1" and g0: "solved_msgs ?first = [1]" by (simp_all add: displaced7_move7)
  have a: "moves ?second = 1" using T m0 by simp
  have b: "solved_msgs ?second = [1]" using T g0 by simp
  have c: "\<not> monitor_status ?second" using T by blast
  have d: "adjacent (vacant ?second) (buttons ?second ! 7)"
    by (simp add: displaced7_move7 swap_step_def adjacent_iff)
  have e: "buttons (move 7 ?second) \<noteq> buttons ?second" using T l1 d by blast
  have "moves (move 7 ?second) = moves ?second" using T l1 by blast
  then have f: "moves (move 7 ?second) = 1" unfolding a .
  have "solved_msgs (move 7 ?second) = solved_msgs ?second" using T l1 by blast
  then have g: "solved_msgs (move 7 ?second) = [1]" unfolding b .
  have i: "\<not> monitor_status (move 7 ?second)" using T l1 by blast
  show ?thesis by (intro conjI) (fact s1 a b c d e f g i)+
qed

subsection \<open>The shuffle\<close>

lemma fold_move_quiet:
  "\<not> monitor_status t \<Longrightarrow>
   \<not> monitor_status (fold move cs t) \<and> moves (fold move cs t) = moves t \<and>
   solved_msgs (fold move cs t) = solved_msgs t"
proof (induction cs arbitrary: t)
  case Nil
  then show ?case by simp
next
  case (Cons c cs)
  have m: "move c t = swap_step c t" using Cons.prems by (rule move_unmonitored)
  have "\<not> monitor_status (swap_step c t)" using Cons.prems by simp
  from Cons.IH[OF this] show ?case by (simp add: m)
qed

lemma fold_move_unmonitored:
  "\<not> monitor_status t \<Longrightarrow> fold move cs t = fold swap_step cs t"
proof (induction cs arbitrary: t)
  case Nil
  then show ?case by simp
next
  case (Cons c cs)
  have m: "move c t = swap_step c t" using Cons.prems by (rule move_unmonitored)
  have "\<not> monitor_status (swap_step c t)" using Cons.prems by simp
  from Cons.IH[OF this] show ?case by (simp add: m)
qed

text \<open>
  C5. On a board with at least one button, \<open>randomise\<close> returns a state (no error). It
  makes exactly \<open>1000 * N\<close> draws, each the index of a button of the board taken from
  the random source, and calls \<open>move\<close> on each in turn, starting from the state with
  monitoring off. Monitoring is off before and after every one of these calls, so each
  call is the plain swap step. The state returned has \<open>moves = 0\<close> and monitoring on.
  How the draws are distributed is the library's \<open>random.choices\<close>, which the model takes
  as the parameter \<open>rnd\<close>.
\<close>

theorem randomise_loop:
  assumes "buttons s \<noteq> []"
  shows "\<exists>cs s'. randomise rnd s = Inr s' \<and>
           length cs = nat (1000 * N s) \<and>
           (\<forall>j<length cs. cs ! j = rnd j mod length (buttons s) \<and> cs ! j < length (buttons s)) \<and>
           s' = (fold move cs (s\<lparr>monitor_status := False\<rparr>))
                  \<lparr>monitor_status := True, moves := 0, count_label := 0\<rparr> \<and>
           fold move cs (s\<lparr>monitor_status := False\<rparr>) =
             fold swap_step cs (s\<lparr>monitor_status := False\<rparr>) \<and>
           (\<forall>k\<le>length cs. \<not> monitor_status (fold move (take k cs) (s\<lparr>monitor_status := False\<rparr>))) \<and>
           moves s' = 0 \<and> monitor_status s'"
proof -
  let ?s0 = "s\<lparr>monitor_status := False\<rparr>"
  let ?cs = "map (\<lambda>j. rnd j mod length (buttons s)) [0..<nat (1000 * N s)]"
  let ?s' = "(fold move ?cs ?s0)\<lparr>monitor_status := True, moves := 0, count_label := 0\<rparr>"
  have u: "\<not> monitor_status ?s0" by simp
  have 1: "randomise rnd s = Inr ?s'" using assms by (rule randomise_draws)
  have 2: "length ?cs = nat (1000 * N s)" by simp
  have 3: "\<forall>j<length ?cs. ?cs ! j = rnd j mod length (buttons s) \<and> ?cs ! j < length (buttons s)"
    using assms by simp
  have 4: "fold move ?cs ?s0 = fold swap_step ?cs ?s0"
    using u by (rule fold_move_unmonitored)
  have 5: "\<forall>k\<le>length ?cs. \<not> monitor_status (fold move (take k ?cs) ?s0)"
    using fold_move_quiet[OF u] by blast
  have 6: "moves ?s' = 0 \<and> monitor_status ?s'" by simp
  show ?thesis using 1 2 3 4 5 6 by blast
qed

text \<open>The shuffle of the 3 by 3 board that draws button 7 once and button 0 afterwards.\<close>

theorem randomise_loop_witness:
  "buttons (puzzle_init 3) \<noteq> [] \<and>
   (\<exists>cs. length cs = 3000 \<and>
      displaced7 = (fold move cs ((puzzle_init 3)\<lparr>monitor_status := False\<rparr>))
                     \<lparr>monitor_status := True, moves := 0, count_label := 0\<rparr>) \<and>
   moves displaced7 = 0 \<and> monitor_status displaced7"
proof -
  have h: "buttons (puzzle_init 3) \<noteq> []" by (simp add: init3)
  have n: "nat (1000 * N (puzzle_init 3)) = 3000" by (simp add: init3)
  from randomise_loop[OF h, of "\<lambda>j. if j = 0 then 7 else 0", unfolded shuffle_to_displaced7 n]
  obtain cs s' where "Inr displaced7 = (Inr s' :: error + puzzle)" "length cs = 3000"
    "s' = (fold move cs ((puzzle_init 3)\<lparr>monitor_status := False\<rparr>))
            \<lparr>monitor_status := True, moves := 0, count_label := 0\<rparr>"
    "moves s' = 0" "monitor_status s'"
    by blast
  then show ?thesis using h by auto
qed

lemma monitored_move_msgs:
  assumes "board_inv s" "b < length (buttons s)" "monitor_status s"
  shows "moves (move b s) = moves s + 1 \<and>
         solved_msgs (move b s) =
           (if is_identity (move b s) then solved_msgs s @ [moves s + 1] else solved_msgs s)"
proof -
  have inv: "board_inv (swap_step b s)" using assms(1,2) by (rule board_inv_swap_step)
  have id: "is_identity (move b s) = is_identity (swap_step b s)"
    by (rule is_identity_frame) simp_all
  show ?thesis
  proof (cases "solved_check (swap_step b s)")
    case True
    then show ?thesis
      using solved_check_identity[OF inv] id move_solved[OF assms(3) True] by simp
  next
    case False
    then show ?thesis
      using solved_check_identity[OF inv] id move_unsolved[OF assms(3) False] by simp
  qed
qed

lemma identity_after_move:
  assumes "board_inv t" "is_identity t" "b < length (buttons t)"
  shows "is_identity (move b t) = (\<not> one_step (buttons t ! b) (vacant t))"
proof -
  have id: "is_identity (move b t) = is_identity (swap_step b t)"
    by (rule is_identity_frame) simp_all
  show ?thesis
  proof (cases "one_step (buttons t ! b) (vacant t)")
    case True
    then show ?thesis using swap_from_identity[OF assms(1,2,3)] id by simp
  next
    case False
    then have "swap_step b t = t" by (simp add: swap_step_def adjacent_one_step)
    then show ?thesis using False assms(2) id by simp
  qed
qed

text \<open>
  C10. A shuffle of a reachable state emits no message and returns with \<open>moves = 0\<close>
  and monitoring on; after each of its \<open>1000 * N\<close> calls of \<open>move\<close> the counter and the
  messages are those of the state it started from. This holds also when the shuffle ends
  in the identity arrangement. The next \<open>move\<close> sets the counter to 1, and it emits a
  message, reporting 1, exactly when the arrangement after it is the identity one; after
  a shuffle that ended in the identity arrangement that is the case exactly for a click
  on a button that is not one step from the vacancy.
\<close>

theorem shuffle_silent:
  assumes "reachable s" and "randomise rnd s = Inr s'"
  shows "solved_msgs s' = solved_msgs s \<and> moves s' = 0 \<and> monitor_status s' \<and>
         (\<exists>cs. length cs = nat (1000 * N s) \<and>
            s' = (fold move cs (s\<lparr>monitor_status := False\<rparr>))
                   \<lparr>monitor_status := True, moves := 0, count_label := 0\<rparr> \<and>
            (\<forall>k\<le>length cs.
               moves (fold move (take k cs) (s\<lparr>monitor_status := False\<rparr>)) = moves s \<and>
               solved_msgs (fold move (take k cs) (s\<lparr>monitor_status := False\<rparr>)) = solved_msgs s)) \<and>
         (\<forall>b<length (buttons s').
            moves (move b s') = 1 \<and>
            solved_msgs (move b s') =
              (if is_identity (move b s') then solved_msgs s @ [1] else solved_msgs s)) \<and>
         (is_identity s' \<longrightarrow>
            (\<forall>b<length (buttons s').
               is_identity (move b s') = (\<not> one_step (buttons s' ! b) (vacant s'))))"
proof -
  let ?s0 = "s\<lparr>monitor_status := False\<rparr>"
  have u: "\<not> monitor_status ?s0" by simp
  from assms(2) obtain cs where len: "length cs = nat (1000 * N s)"
    and s': "s' = (fold move cs ?s0)\<lparr>monitor_status := True, moves := 0, count_label := 0\<rparr>"
    by (rule randomise_Inr)
  have inv': "board_inv s'"
    using assms reachable_board_inv board_inv_randomise by blast
  have pre: "\<forall>k\<le>length cs. moves (fold move (take k cs) ?s0) = moves s \<and>
               solved_msgs (fold move (take k cs) ?s0) = solved_msgs s"
    using fold_move_quiet[OF u] by simp
  have A: "solved_msgs s' = solved_msgs s" "moves s' = 0" "monitor_status s'"
    using fold_move_quiet[OF u, of cs] by (simp_all add: s')
  have B: "moves (move b s') = 1 \<and>
           solved_msgs (move b s') =
             (if is_identity (move b s') then solved_msgs s @ [1] else solved_msgs s)"
    if "b < length (buttons s')" for b
    using monitored_move_msgs[OF inv' that A(3)] A(1,2) by simp
  have C: "is_identity (move b s') = (\<not> one_step (buttons s' ! b) (vacant s'))"
    if "is_identity s'" "b < length (buttons s')" for b
    using identity_after_move[OF inv' that] .
  show ?thesis using A len s' pre B C by blast
qed

text \<open>
  The shuffle of the 3 by 3 board that always draws button 0 ends in the identity
  arrangement without a message; a click on button 0 then reports 1 move, a click on
  button 7 slides it and reports nothing.
\<close>

theorem shuffle_silent_witness:
  "reachable (puzzle_init 3) \<and>
   randomise (\<lambda>j. 0) (puzzle_init 3) = Inr ((puzzle_init 3)\<lparr>monitor_status := True\<rparr>) \<and>
   is_identity ((puzzle_init 3)\<lparr>monitor_status := True\<rparr>) \<and>
   solved_msgs ((puzzle_init 3)\<lparr>monitor_status := True\<rparr>) = [] \<and>
   moves ((puzzle_init 3)\<lparr>monitor_status := True\<rparr>) = 0 \<and>
   moves (move 0 ((puzzle_init 3)\<lparr>monitor_status := True\<rparr>)) = 1 \<and>
   solved_msgs (move 0 ((puzzle_init 3)\<lparr>monitor_status := True\<rparr>)) = [1] \<and>
   moves (move 7 ((puzzle_init 3)\<lparr>monitor_status := True\<rparr>)) = 1 \<and>
   solved_msgs (move 7 ((puzzle_init 3)\<lparr>monitor_status := True\<rparr>)) = []"
proof -
  let ?s' = "(puzzle_init 3)\<lparr>monitor_status := True\<rparr>"
  have r: "reachable (puzzle_init 3)" by (rule reach_init) simp
  note T = shuffle_silent[OF r shuffle_to_identity]
  have m0: "solved_msgs (puzzle_init 3) = []" by (simp add: init3)
  have l0: "0 < length (buttons ?s')" and l7: "7 < length (buttons ?s')" by (simp_all add: init3)
  have id: "is_identity ?s'" by (simp add: is_identity_def init3 identity3)
  have o0: "\<not> one_step (buttons ?s' ! 0) (vacant ?s')" and o7: "one_step (buttons ?s' ! 7) (vacant ?s')"
    by (simp_all add: init3 one_step_def)
  have a: "solved_msgs ?s' = []" using T m0 by simp
  have b: "moves ?s' = 0" using T by blast
  have i0: "is_identity (move 0 ?s')" using T id l0 o0 by blast
  have i7: "\<not> is_identity (move 7 ?s')" using T id l7 o7 by blast
  have c: "moves (move 0 ?s') = 1" using T l0 by blast
  have "solved_msgs (move 0 ?s') =
          (if is_identity (move 0 ?s') then solved_msgs (puzzle_init 3) @ [1] else solved_msgs (puzzle_init 3))"
    using T l0 by blast
  then have d: "solved_msgs (move 0 ?s') = [1]" using i0 m0 by simp
  have e: "moves (move 7 ?s') = 1" using T l7 by blast
  have "solved_msgs (move 7 ?s') =
          (if is_identity (move 7 ?s') then solved_msgs (puzzle_init 3) @ [1] else solved_msgs (puzzle_init 3))"
    using T l7 by blast
  then have f: "solved_msgs (move 7 ?s') = []" using i7 m0 by simp
  show ?thesis by (intro conjI) (fact r shuffle_to_identity id a b c d e f)+
qed

subsection \<open>Shuffled boards are solvable\<close>





subsection \<open>Reset and construction\<close>

lemma is_identity_init: "0 < n \<Longrightarrow> is_identity (puzzle_init n)"
  using init_buttons_identity[of n] by (simp add: is_identity_def) (simp add: puzzle_init_def)

text \<open>
  C9. On every reachable state \<open>reset\<close> returns a state (no error): the arrangement is
  the identity one, the one of the constructor for the same size, \<open>moves\<close> is 0 and
  monitoring is off; a second \<open>reset\<close> returns the very same state.
\<close>

theorem reset_restores:
  assumes "reachable s"
  shows "\<exists>s'. reset s = Inr s' \<and> is_identity s' \<and>
           buttons s' = buttons (puzzle_init (N s)) \<and> vacant s' = vacant (puzzle_init (N s)) \<and>
           N s' = N s \<and> moves s' = 0 \<and> \<not> monitor_status s' \<and> reset s' = Inr s'"
proof -
  have inv: "board_inv s" using assms by (rule reachable_board_inv)
  then have n: "0 < N s" and l: "length (buttons s) = nat (N s * N s - 1)"
    by (simp_all add: board_inv_def)
  let ?s' = "s\<lparr>buttons := identity_buttons (N s), vacant := (N s - 1, N s - 1),
               monitor_status := False, moves := 0, count_label := 0\<rparr>"
  have 1: "reset s = Inr ?s'" using n l by (rule reset_identity)
  have n': "0 < N ?s'" and l': "length (buttons ?s') = nat (N ?s' * N ?s' - 1)"
    using n by (simp_all add: length_identity)
  have 2: "reset ?s' = Inr ?s'" using reset_identity[OF n' l'] by simp
  have 3: "is_identity ?s'" by (simp add: is_identity_def)
  have 4: "buttons ?s' = buttons (puzzle_init (N s))" using init_buttons_identity[OF n] by simp
  have 5: "vacant ?s' = vacant (puzzle_init (N s))" by (simp add: puzzle_init_def)
  have 6: "N ?s' = N s \<and> moves ?s' = 0 \<and> \<not> monitor_status ?s'" by simp
  show ?thesis using 1 2 3 4 5 6 by blast
qed

text \<open>Resetting the board with tile 7 displaced gives the 3 by 3 board as constructed.\<close>

theorem reset_restores_witness:
  "reachable displaced7 \<and> reset displaced7 = Inr (puzzle_init 3) \<and>
   reset (puzzle_init 3) = Inr (puzzle_init 3) \<and> is_identity (puzzle_init 3) \<and>
   moves (puzzle_init 3) = 0 \<and> \<not> monitor_status (puzzle_init 3)"
proof -
  have e: "reset displaced7 = Inr (puzzle_init 3)"
    by (simp add: reset_def displaced7_def init3 upt_conv_Cons)
  from reset_restores[OF reachable_displaced7]
  obtain s' where "reset displaced7 = Inr s'" and p: "is_identity s'" "moves s' = 0"
    "\<not> monitor_status s'" "reset s' = Inr s'"
    by blast
  then have "s' = puzzle_init 3" using e by simp
  then show ?thesis using p e reachable_displaced7 by simp
qed

text \<open>
  C8, as the specification states it, fails: with the size 2 on the command line the
  assertion of \<open>main\<close> fails, the error is caught, and the 3 by 3 board is built; the
  constructor itself, given the size 2, builds a 2 by 2 board. No error is reported.
\<close>

theorem construction_counterexample:
  "read_N (IntText 2) = Inl AssertionError \<and>
   main (IntText 2) =
     \<lparr>N = 3, buttons = [(0, 0), (0, 1), (0, 2), (1, 0), (1, 1), (1, 2), (2, 0), (2, 1)],
      vacant = (2, 2), monitor_status = False, moves = 0, count_label = 0, solved_msgs = []\<rparr> \<and>
   puzzle_init 2 =
     \<lparr>N = 2, buttons = [(0, 0), (0, 1), (1, 0)],
      vacant = (1, 1), monitor_status = False, moves = 0, count_label = 0, solved_msgs = []\<rparr>"
  by (simp add: main_def main_N_def init3) (simp add: puzzle_init_def upto.simps)

lemma main_N_cases: "main_N a = (case a of IntText n \<Rightarrow> if 2 < n then n else 3 | _ \<Rightarrow> 3)"
  by (cases a) (simp_all add: main_N_def)

text \<open>
  C8, amended. \<open>main\<close> builds the board of size \<open>main_N a\<close>: the size on the command
  line when it is an integer above 2, and 3 otherwise (a smaller integer, no argument, an
  argument that is not an integer); there is no error result. That size is at least 3,
  and the board built is in the identity arrangement, unmonitored, with \<open>moves = 0\<close>.
  The constructor has no check of its own and yields the identity arrangement for every
  positive size (also 1 and 2), with no error result: tile \<open>k\<close> at
  \<open>(k div n, k mod n)\<close> for \<open>k \<le> n\<^sup>2 - 2\<close>, the vacancy at \<open>(n - 1, n - 1)\<close>.
\<close>

theorem construction:
  "main a = puzzle_init (main_N a) \<and>
   main_N a = (case a of IntText n \<Rightarrow> if 2 < n then n else 3 | _ \<Rightarrow> 3) \<and>
   3 \<le> main_N a \<and> is_identity (main a) \<and> N (main a) = main_N a \<and>
   moves (main a) = 0 \<and> \<not> monitor_status (main a) \<and>
   (\<forall>n. 0 < n \<longrightarrow>
      is_identity (puzzle_init n) \<and> N (puzzle_init n) = n \<and> vacant (puzzle_init n) = (n - 1, n - 1) \<and>
      (\<forall>k. int k \<le> n * n - 2 \<longrightarrow> buttons (puzzle_init n) ! k = (int k div n, int k mod n)))"
proof -
  have 3: "3 \<le> main_N a" by (cases a) (simp_all add: main_N_def)
  then have 4: "is_identity (main a)" by (simp add: main_def is_identity_init)
  have 5: "N (main a) = main_N a \<and> moves (main a) = 0 \<and> \<not> monitor_status (main a)"
    by (simp add: main_def puzzle_init_def)
  have 6: "is_identity (puzzle_init n) \<and> N (puzzle_init n) = n \<and>
           vacant (puzzle_init n) = (n - 1, n - 1) \<and>
           (\<forall>k. int k \<le> n * n - 2 \<longrightarrow> buttons (puzzle_init n) ! k = (int k div n, int k mod n))"
    if n: "0 < n" for n
  proof -
    have "buttons (puzzle_init n) ! k = (int k div n, int k mod n)" if "int k \<le> n * n - 2" for k
    proof -
      have "k < nat (n * n - 1)" using that by linarith
      then show ?thesis using init_buttons_identity[OF n] by (simp add: identity_nth)
    qed
    then show ?thesis using is_identity_init[OF n] by (simp add: puzzle_init_def)
  qed
  show ?thesis using 3 4 5 6 main_N_cases[of a] by (simp add: main_def)
qed

text \<open>The sizes 4, none, not an integer, and 2.\<close>

theorem construction_witness:
  "main (IntText 4) = puzzle_init 4 \<and> is_identity (puzzle_init 4) \<and> N (puzzle_init 4) = 4 \<and>
   vacant (puzzle_init 4) = (3, 3) \<and> buttons (puzzle_init 4) ! 6 = (1, 2) \<and>
   main Absent = puzzle_init 3 \<and> main NotInt = puzzle_init 3 \<and> main (IntText 2) = puzzle_init 3"
proof -
  note T = construction[of "IntText 4"]
  have a: "main (IntText 4) = puzzle_init 4" using T by simp
  have p: "(0::int) < 4" by simp
  have b: "is_identity (puzzle_init 4)" "N (puzzle_init 4) = 4" using T p by blast+
  have "vacant (puzzle_init 4) = (4 - 1, 4 - 1)" using T p by blast
  then have c: "vacant (puzzle_init 4) = (3, 3)" by simp
  have "int 6 \<le> 4 * 4 - 2" by simp
  then have "buttons (puzzle_init 4) ! 6 = (int 6 div 4, int 6 mod 4)" using T p by blast
  then have d: "buttons (puzzle_init 4) ! 6 = (1, 2)" by simp
  have e: "main Absent = puzzle_init 3" "main NotInt = puzzle_init 3" "main (IntText 2) = puzzle_init 3"
    using construction[of Absent] construction[of NotInt] construction[of "IntText 2"] by simp_all
  show ?thesis by (intro conjI) (fact a b c d e)+
qed

end
